theory Spec2Isabelle
  imports Main "HOL-Library.Sublist"
begin

section \<open>Values\<close>

text \<open>
  A Request as the data model describes it: method, path, parameters, title and the raw
  DOM event (an opaque identifier, or none); \<open>req_method\<close> is the field \<open>method\<close>. The
  two source files use only \<open>request.method\<close>, \<open>request.path\<close>, \<open>request.title\<close> and
  \<open>request.toString()\<close>.
\<close>

record request =
  req_method :: string
  path :: string
  title :: string
  params :: "(string \<times> string) list"
  raw :: "nat option"

text \<open>
  The JavaScript values that can travel as the state of a history entry and as the
  argument of a handler. Numbers are the integers and NaN.
\<close>

datatype jsval =
    JUndefined
  | JNull
  | JBool bool
  | JNum int
  | JNaN
  | JStr string
  | JReq request

text \<open>JavaScript's ToBoolean, which decides \<open>if (event.state)\<close>.\<close>

fun truthy :: "jsval \<Rightarrow> bool" where
  "truthy JUndefined = False"
| "truthy JNull = False"
| "truthy (JBool b) = b"
| "truthy (JNum n) = (n \<noteq> 0)"
| "truthy JNaN = False"
| "truthy (JStr s) = (s \<noteq> [])"
| "truthy (JReq r) = True"

text \<open>Reading a property of \<open>undefined\<close> or \<open>null\<close> raises a TypeError.\<close>

fun nullish :: "jsval \<Rightarrow> bool" where
  "nullish JUndefined = True"
| "nullish JNull = True"
| "nullish v = False"

text \<open>\<open>request.method\<close> and \<open>request.path\<close>; \<open>None\<close> is \<open>undefined\<close>.\<close>

fun prop_method :: "jsval \<Rightarrow> string option" where
  "prop_method (JReq r) = Some (req_method r)"
| "prop_method v = None"

fun prop_path :: "jsval \<Rightarrow> string option" where
  "prop_path (JReq r) = Some (path r)"
| "prop_path v = None"

record popstate_event =
  state :: jsval

section \<open>Functions held by the program\<close>

text \<open>
  A handler given to \<open>Davis.history.onChange\<close> is either a function of the embedding
  application, known by an identifier only, or the closure that \<open>start\<close> of the App
  instance \<open>self\<close> builds.
\<close>

datatype handler = Opaque nat | Dispatch nat

text \<open>
  A listener of the window's popstate event: the closure \<open>wrapped(handler)\<close>, known by the
  handler that it closes over.
\<close>

datatype listener = Wrapped handler

fun wraps :: "listener \<Rightarrow> handler" where
  "wraps (Wrapped handler) = handler"

text \<open>
  A subscriber of the event mixin: one of the three closures that \<open>start\<close> of an App
  instance binds, or a function of the embedding application.
\<close>

datatype subscriber =
    LogRunRoute nat
  | LogRouteNotFound nat
  | LogStart nat
  | UserCallback nat

text \<open>
  A Route as the data model describes it: its method (\<open>rmethod\<close>), its pattern as the
  compiled matcher, and its callback, a function of the embedding application.
\<close>

record route =
  rmethod :: string
  pattern :: "string \<Rightarrow> (string \<times> string) list option"
  callback :: nat

text \<open>
  The object literal \<open>settings\<close> of the App prototype, with the logger known by an
  identifier, and the own properties that the constructor gives an instance.
\<close>

record settings =
  linkSelector :: string
  formSelector :: string
  logger :: nat

record app =
  foo :: string
  running :: bool

section \<open>The world and what is observed of it\<close>

datatype level = Info | Warn

text \<open>
  Every call that leaves the two source files is written to a log, in the order in which
  it happens: the host's history API, a handler entered, the event mixin's
  \<open>trigger\<close> and the subscribers it runs, the logger, the route table's lookup, a route
  run, and the listener mixin.
\<close>

datatype event =
    HostPushState request string string
  | HostReplaceState request string string
  | Called handler jsval
  | Emitted nat string "jsval list"
  | SubscriberCalled nat "jsval list"
  | Logged level nat string "jsval option"
  | LookupCalled "string option" "string option"
  | RouteRun nat jsval
  | ListenCalled nat
  | UnlistenCalled nat

text \<open>
  The world: the array \<open>pushStateHandlers\<close> of \<open>Davis.history\<close>, the window's listeners of
  \<open>popstate\<close>, the registry of the event mixin, the routes that \<open>Davis.Route.lookup\<close>
  scans, the settings object of the App prototype, the App instances, the request that
  \<open>Davis.Request.forPageLoad()\<close> returns for the current location, and the log.
\<close>

record world =
  pushStateHandlers :: "handler list"
  popstateListeners :: "listener list"
  callbacks :: "(string \<times> subscriber option) list"
  routes :: "route list"
  settings :: settings
  apps :: "app list"
  pageLoad :: request
  trace :: "event list"

datatype error = TypeError

text \<open>
  A call either returns or raises; a raise keeps the world as it was at that moment,
  since nothing in JavaScript undoes the writes made before it.
\<close>

datatype outcome = Normal world | Threw error world

fun andThen :: "outcome \<Rightarrow> (world \<Rightarrow> outcome) \<Rightarrow> outcome" where
  "andThen (Normal w) f = f w"
| "andThen (Threw e w) f = Threw e w"

fun final :: "outcome \<Rightarrow> world" where
  "final (Normal w) = w"
| "final (Threw e w) = w"

definition emit :: "event \<Rightarrow> world \<Rightarrow> world" where
  "emit ev w = w\<lparr>trace := trace w @ [ev]\<rparr>"

section \<open>Collaborators outside the two source files\<close>

subsection \<open>The event mixin\<close>

text \<open>
  Modelled from the spec: \<open>Davis.event\<close>, whose \<open>bind\<close> and \<open>trigger\<close> the App inherits,
  is not among the sources. The spec calls it a generic publish/subscribe whose state is
  global and shared through the mixin, with no invariant beyond "call registered handlers
  in registration order". \<open>bind\<close> appends what it is given to the one registry and returns
  its receiver; a call without a callback, as \<open>stop\<close> makes, stores \<open>undefined\<close>,
  written \<open>None\<close>.
\<close>

definition bind :: "nat \<Rightarrow> string \<Rightarrow> subscriber option \<Rightarrow> world \<Rightarrow> world" where
  "bind self name cb w = w\<lparr>callbacks := callbacks w @ [(name, cb)]\<rparr>"

definition bound :: "string \<Rightarrow> (string \<times> subscriber option) list \<Rightarrow> subscriber option list" where
  "bound name cbs = map snd (filter (\<lambda>nc. fst nc = name) cbs)"

text \<open>
  \<open>this.settings\<close> on an App instance: the constructor gives an instance the own
  properties \<open>foo\<close> and \<open>running\<close> only, so the read resolves on the prototype, to the one
  object literal stored there.
\<close>

definition get_settings :: "world \<Rightarrow> nat \<Rightarrow> settings" where
  "get_settings w self = settings w"

fun first_arg :: "jsval list \<Rightarrow> jsval" where
  "first_arg [] = JUndefined"
| "first_arg (a # as) = a"

text \<open>
  The three closures of \<open>start\<close>, and a subscriber of the embedding application, which is
  taken to return. The logged message is the given text followed by \<open>toString()\<close> of the
  value beside it. Calling \<open>undefined\<close>, and \<open>request.toString()\<close> on \<open>undefined\<close> or
  \<open>null\<close>, raise.
\<close>

fun call_subscriber :: "subscriber option \<Rightarrow> jsval list \<Rightarrow> world \<Rightarrow> outcome" where
  "call_subscriber None args w = Threw TypeError w"
| "call_subscriber (Some (LogRunRoute self)) args w =
     (if nullish (first_arg args) then Threw TypeError w
      else Normal (emit (Logged Info (logger (get_settings w self)) ''runRoute: ''
                           (Some (first_arg args))) w))"
| "call_subscriber (Some (LogRouteNotFound self)) args w =
     (if nullish (first_arg args) then Threw TypeError w
      else Normal (emit (Logged Warn (logger (get_settings w self)) ''routeNotFound: ''
                           (Some (first_arg args))) w))"
| "call_subscriber (Some (LogStart self)) args w =
     Normal (emit (Logged Info (logger (get_settings w self)) ''application started'' None) w)"
| "call_subscriber (Some (UserCallback n)) args w =
     Normal (emit (SubscriberCalled n args) w)"

fun run_subscribers :: "subscriber option list \<Rightarrow> jsval list \<Rightarrow> world \<Rightarrow> outcome" where
  "run_subscribers [] args w = Normal w"
| "run_subscribers (c # cs) args w =
     andThen (call_subscriber c args w) (run_subscribers cs args)"

text \<open>
  Modelled from the spec: \<open>trigger\<close> of \<open>Davis.event\<close> emits the notification, calling
  the subscribers bound to the name in registration order with the remaining arguments.
\<close>

definition trigger :: "nat \<Rightarrow> string \<Rightarrow> jsval list \<Rightarrow> world \<Rightarrow> outcome" where
  "trigger self name args w =
     run_subscribers (bound name (callbacks w)) args (emit (Emitted self name args) w)"

subsection \<open>The listener mixin\<close>

text \<open>
  Modelled from the spec: \<open>Davis.listener\<close> is not among the sources; \<open>listen\<close> begins
  and \<open>unlisten\<close> stops intercepting link and form events. Only the call is recorded.
\<close>

definition listen :: "nat \<Rightarrow> world \<Rightarrow> world" where
  "listen self w = emit (ListenCalled self) w"

definition unlisten :: "nat \<Rightarrow> world \<Rightarrow> world" where
  "unlisten self w = emit (UnlistenCalled self) w"

subsection \<open>The route table\<close>

text \<open>
  Modelled from the spec: \<open>Davis.Route.lookup\<close> is not among the sources. The spec's
  words: linear scan over routes in registration order; for each candidate with matching
  method, attempt pattern match; return on first success; return the "not found" sentinel
  after exhausting the list. A route's pattern is its compiled matcher, which gives a
  parameter mapping on success and a miss otherwise.
\<close>

fun lookup :: "route list \<Rightarrow> string \<Rightarrow> string \<Rightarrow> route option" where
  "lookup [] m p = None"
| "lookup (r # rs) m p =
     (if rmethod r = m
      then (case pattern r p of Some ps \<Rightarrow> Some r | None \<Rightarrow> lookup rs m p)
      else lookup rs m p)"

text \<open>
  The lookup as \<open>start\<close>'s closure calls it, with \<open>request.method\<close> and \<open>request.path\<close>:
  a method that is \<open>undefined\<close> is no route's method.
\<close>

fun lookup_props :: "route list \<Rightarrow> string option \<Rightarrow> string option \<Rightarrow> route option" where
  "lookup_props rs (Some m) (Some p) = lookup rs m p"
| "lookup_props rs m p = None"

text \<open>
  Modelled from the spec: \<open>route.run(request)\<close> invokes the matched route's callback with
  the Request; the callback belongs to the embedding application and is taken to return.
\<close>

definition run :: "route \<Rightarrow> jsval \<Rightarrow> world \<Rightarrow> world" where
  "run r request w = emit (RouteRun (callback r) request) w"

section \<open>davis.app.js: the closure that start gives to onChange\<close>

text \<open>
  The function (request) of \<open>start\<close>, with \<open>self\<close> the instance whose \<open>start\<close> built it:
  trigger \<open>lookupRoute\<close>, look the route up by \<open>request.method\<close> and \<open>request.path\<close>, then
  either trigger \<open>runRoute\<close> and run the route, or trigger \<open>routeNotFound\<close>.
\<close>

definition dispatch :: "nat \<Rightarrow> jsval \<Rightarrow> world \<Rightarrow> outcome" where
  "dispatch self request w =
     andThen (trigger self ''lookupRoute'' [request] w) (\<lambda>w1.
       if nullish request then Threw TypeError w1
       else
         let w2 = emit (LookupCalled (prop_method request) (prop_path request)) w1
         in case lookup_props (routes w2) (prop_method request) (prop_path request) of
              Some r \<Rightarrow>
                andThen (trigger self ''runRoute'' [request] w2)
                        (\<lambda>w3. Normal (run r request w3))
            | None \<Rightarrow> trigger self ''routeNotFound'' [request] w2)"

text \<open>
  Calling a handler with one argument. A handler of the embedding application is taken to
  return and to leave the world of this model alone.
\<close>

fun invoke :: "handler \<Rightarrow> jsval \<Rightarrow> world \<Rightarrow> outcome" where
  "invoke (Opaque n) v w = Normal (emit (Called (Opaque n) v) w)"
| "invoke (Dispatch self) v w = dispatch self v (emit (Called (Dispatch self) v) w)"

section \<open>davis.history.js\<close>

definition onPushState :: "handler \<Rightarrow> world \<Rightarrow> world" where
  "onPushState handler w = w\<lparr>pushStateHandlers := pushStateHandlers w @ [handler]\<rparr>"

text \<open>
  \<open>window.addEventListener('popstate', handler)\<close>. The one caller passes a closure that
  \<open>wrapped\<close> has just built, which is never a listener the window already has, so the
  listener is always added.
\<close>

definition onPopState :: "listener \<Rightarrow> world \<Rightarrow> world" where
  "onPopState handler w = w\<lparr>popstateListeners := popstateListeners w @ [handler]\<rparr>"

text \<open>
  The function (event) that \<open>wrapped(handler)\<close> returns, applied to an event;
  \<open>Davis.Request.forPageLoad()\<close>, which is not among the sources, returns the request
  \<open>pageLoad\<close> of the world. The closure itself is the value \<open>Wrapped handler\<close>.
\<close>

definition wrapped :: "handler \<Rightarrow> popstate_event \<Rightarrow> world \<Rightarrow> outcome" where
  "wrapped handler event w =
     (if truthy (state event) then invoke handler (state event) w
      else invoke handler (JReq (pageLoad w)) w)"

fun call_listener :: "listener \<Rightarrow> popstate_event \<Rightarrow> world \<Rightarrow> outcome" where
  "call_listener (Wrapped handler) event w = wrapped handler event w"

definition onChange :: "handler \<Rightarrow> world \<Rightarrow> world" where
  "onChange handler w = onPopState (Wrapped handler) (onPushState handler w)"

text \<open>\<open>forEach\<close> over the handlers: a raise ends the loop.\<close>

fun forEach :: "handler list \<Rightarrow> jsval \<Rightarrow> world \<Rightarrow> outcome" where
  "forEach [] v w = Normal w"
| "forEach (h # hs) v w = andThen (invoke h v w) (forEach hs v)"

definition pushState :: "request \<Rightarrow> world \<Rightarrow> outcome" where
  "pushState request w =
     (let w1 = emit (HostPushState request (title request) (path request)) w
      in forEach (pushStateHandlers w1) (JReq request) w1)"

definition replaceState :: "request \<Rightarrow> world \<Rightarrow> outcome" where
  "replaceState request w =
     (let w1 = emit (HostReplaceState request (title request) (path request)) w
      in forEach (pushStateHandlers w1) (JReq request) w1)"

text \<open>
  The host firing a native popstate event: the window calls its listeners in the order
  in which they were added; a listener that raises does not keep the next from running.
\<close>

fun fire :: "listener list \<Rightarrow> popstate_event \<Rightarrow> world \<Rightarrow> world" where
  "fire [] event w = w"
| "fire (l # ls) event w = fire ls event (final (call_listener l event w))"

definition popstate :: "popstate_event \<Rightarrow> world \<Rightarrow> world" where
  "popstate event w = fire (popstateListeners w) event w"

section \<open>davis.app.js\<close>

text \<open>\<open>new Davis.App()\<close>: a fresh instance, named by its position.\<close>

definition klass :: "world \<Rightarrow> nat \<times> world" where
  "klass w = (length (apps w), w\<lparr>apps := apps w @ [\<lparr>foo = ''bar'', running = False\<rparr>]\<rparr>)"

text \<open>
  Reading an instance, and the assignment \<open>this.running = b\<close>. The receiver of every
  method is an instance that the constructor built.
\<close>

definition instance_at :: "world \<Rightarrow> nat \<Rightarrow> app option" where
  "instance_at w self = (if self < length (apps w) then Some (apps w ! self) else None)"

definition set_running :: "nat \<Rightarrow> bool \<Rightarrow> world \<Rightarrow> world" where
  "set_running self b w = w\<lparr>apps := (apps w)[self := (apps w ! self)\<lparr>running := b\<rparr>]\<rparr>"

text \<open>
  \<open>config.call(this.settings)\<close>: the function is given by what it does to its receiver,
  which is the settings object of the prototype.
\<close>

definition configure :: "nat \<Rightarrow> (settings \<Rightarrow> settings) \<Rightarrow> world \<Rightarrow> world" where
  "configure self config w = w\<lparr>settings := config (get_settings w self)\<rparr>"

definition start :: "nat \<Rightarrow> world \<Rightarrow> outcome" where
  "start self w =
     (let w1 = bind self ''runRoute'' (Some (LogRunRoute self)) w;
          w2 = bind self ''routeNotFound'' (Some (LogRouteNotFound self)) w1;
          w3 = bind self ''start'' (Some (LogStart self)) w2;
          w4 = listen self w3
      in andThen (trigger self ''start'' [] w4) (\<lambda>w5.
           Normal (set_running self True (onChange (Dispatch self) w5))))"

definition stop :: "nat \<Rightarrow> world \<Rightarrow> outcome" where
  "stop self w = Normal (bind self ''stop'' None (unlisten self w))"

section \<open>Vocabulary of the properties\<close>

text \<open>
  A route answers a lookup when its method is the one asked for and its pattern matches.
\<close>

definition route_matches :: "route \<Rightarrow> string \<Rightarrow> string \<Rightarrow> bool" where
  "route_matches r m p = (rmethod r = m \<and> pattern r p \<noteq> None)"

text \<open>
  The calls of handlers in a log, and the steps of the App's request dispatch in it.
\<close>

fun is_call :: "event \<Rightarrow> bool" where
  "is_call (Called h v) = True"
| "is_call e = False"

fun signal :: "event \<Rightarrow> bool" where
  "signal (Emitted a n args) = True"
| "signal (LookupCalled m p) = True"
| "signal (RouteRun c v) = True"
| "signal e = False"

definition silent :: "event list \<Rightarrow> bool" where
  "silent es \<longleftrightarrow> filter is_call es = [] \<and> filter signal es = []"

text \<open>
  \<open>grows w es w'\<close>: the world \<open>w'\<close> is \<open>w\<close> with the events \<open>es\<close> added to its log.
\<close>

definition grows :: "world \<Rightarrow> event list \<Rightarrow> world \<Rightarrow> bool" where
  "grows w es w' \<longleftrightarrow> w' = w\<lparr>trace := trace w @ es\<rparr>"

fun returns :: "outcome \<Rightarrow> bool" where
  "returns (Normal w) = True"
| "returns (Threw e w) = False"

text \<open>
  When calling a subscriber with the given arguments does not raise, and when no
  subscriber bound to a name does.
\<close>

fun callable :: "subscriber option \<Rightarrow> jsval list \<Rightarrow> bool" where
  "callable None args = False"
| "callable (Some (LogRunRoute self)) args = (\<not> nullish (first_arg args))"
| "callable (Some (LogRouteNotFound self)) args = (\<not> nullish (first_arg args))"
| "callable (Some (LogStart self)) args = True"
| "callable (Some (UserCallback n)) args = True"

definition quiet :: "string \<Rightarrow> jsval list \<Rightarrow> world \<Rightarrow> bool" where
  "quiet name args w = list_all (\<lambda>c. callable c args) (bound name (callbacks w))"

text \<open>
  What section 4.3 of the spec asks of one dispatched request, as a list of steps:
  \<open>lookupRoute\<close>, the lookup, and then either \<open>runRoute\<close> and the route's callback or
  \<open>routeNotFound\<close>.
\<close>

definition expected_signals :: "nat \<Rightarrow> jsval \<Rightarrow> route list \<Rightarrow> event list" where
  "expected_signals self v rs =
     Emitted self ''lookupRoute'' [v] # LookupCalled (prop_method v) (prop_path v) #
     (case lookup_props rs (prop_method v) (prop_path v) of
        Some r \<Rightarrow> [Emitted self ''runRoute'' [v], RouteRun (callback r) v]
      | None \<Rightarrow> [Emitted self ''routeNotFound'' [v]])"

text \<open>
  The requests on which the closure of \<open>start\<close> does not raise, in a given world, and
  the same for any handler.
\<close>

definition dispatch_ok :: "jsval \<Rightarrow> world \<Rightarrow> bool" where
  "dispatch_ok v w \<longleftrightarrow>
     \<not> nullish v \<and> quiet ''lookupRoute'' [v] w \<and>
     (case lookup_props (routes w) (prop_method v) (prop_path v) of
        Some r \<Rightarrow> quiet ''runRoute'' [v] w
      | None \<Rightarrow> quiet ''routeNotFound'' [v] w)"

fun handler_ok :: "handler \<Rightarrow> jsval \<Rightarrow> world \<Rightarrow> bool" where
  "handler_ok (Opaque n) v w = True"
| "handler_ok (Dispatch self) v w = dispatch_ok v w"

fun handler_signals :: "handler \<Rightarrow> jsval \<Rightarrow> route list \<Rightarrow> event list" where
  "handler_signals (Opaque n) v rs = []"
| "handler_signals (Dispatch self) v rs = expected_signals self v rs"

text \<open>
  The value that a wrapped handler passes on for a native popstate event.
\<close>

definition delivered :: "popstate_event \<Rightarrow> world \<Rightarrow> jsval" where
  "delivered event w = (if truthy (state event) then state event else JReq (pageLoad w))"

text \<open>
  The three subscriptions that \<open>start\<close> binds, the world in which \<open>start\<close> triggers its
  \<open>start\<close> notification, and the world that a \<open>start\<close> which returns leaves, given the
  events \<open>es\<close> that the subscribers of \<open>start\<close> logged.
\<close>

definition default_subscriptions :: "nat \<Rightarrow> (string \<times> subscriber option) list" where
  "default_subscriptions self =
     [(''runRoute'', Some (LogRunRoute self)),
      (''routeNotFound'', Some (LogRouteNotFound self)),
      (''start'', Some (LogStart self))]"

definition started :: "nat \<Rightarrow> world \<Rightarrow> event list \<Rightarrow> world" where
  "started self w es =
     w\<lparr>callbacks := callbacks w @ default_subscriptions self,
       pushStateHandlers := pushStateHandlers w @ [Dispatch self],
       popstateListeners := popstateListeners w @ [Wrapped (Dispatch self)],
       apps := (apps w)[self := (apps w ! self)\<lparr>running := True\<rparr>],
       trace := trace w @ ListenCalled self # Emitted self ''start'' [] # es\<rparr>"

definition bound_three :: "nat \<Rightarrow> world \<Rightarrow> world" where
  "bound_three self w = w\<lparr>callbacks := callbacks w @ default_subscriptions self,
                           trace := trace w @ [ListenCalled self]\<rparr>"

text \<open>
  \<open>start\<close> called \<open>n\<close> times in a row on one instance.
\<close>

fun starts :: "nat \<Rightarrow> nat \<Rightarrow> world \<Rightarrow> outcome" where
  "starts 0 self w = Normal w"
| "starts (Suc n) self w = andThen (start self w) (starts n self)"

text \<open>
  The operations that the two modules offer to the rest of the page, with the native
  popstate event of the host, and a session as a list of them. Each is taken with the
  world that it leaves, whether it returned or raised.
\<close>

datatype operation =
    OnChange handler
  | PushState request
  | ReplaceState request
  | Popstate popstate_event
  | Construct
  | Configure nat "settings \<Rightarrow> settings"
  | Start nat
  | Stop nat
  | Bind nat string "subscriber option"
  | Trigger nat string "jsval list"

fun perform :: "operation \<Rightarrow> world \<Rightarrow> world" where
  "perform (OnChange h) w = onChange h w"
| "perform (PushState r) w = final (pushState r w)"
| "perform (ReplaceState r) w = final (replaceState r w)"
| "perform (Popstate event) w = popstate event w"
| "perform Construct w = snd (klass w)"
| "perform (Configure self config) w = configure self config w"
| "perform (Start self) w = final (start self w)"
| "perform (Stop self) w = final (stop self w)"
| "perform (Bind self name cb) w = bind self name cb w"
| "perform (Trigger self name args) w = final (trigger self name args w)"

fun perform_all :: "operation list \<Rightarrow> world \<Rightarrow> world" where
  "perform_all [] w = w"
| "perform_all (op # ops) w = perform_all ops (perform op w)"

section \<open>Example values\<close>

text \<open>
  Three routes whose patterns match one path each; the second and the third answer the
  same requests.
\<close>

definition exact :: "string \<Rightarrow> string \<Rightarrow> (string \<times> string) list option" where
  "exact pat p = (if p = pat then Some [] else None)"

definition home_route :: route where
  "home_route = \<lparr>rmethod = ''get'', pattern = exact ''/home'', callback = 1\<rparr>"

definition save_route :: route where
  "save_route = \<lparr>rmethod = ''post'', pattern = exact ''/save'', callback = 2\<rparr>"

definition save_again_route :: route where
  "save_again_route = \<lparr>rmethod = ''post'', pattern = exact ''/save'', callback = 3\<rparr>"

text \<open>
  Requests, and the settings that the prototype starts with.
\<close>

definition page :: request where
  "page = \<lparr>req_method = ''get'', path = ''/'', title = '''', params = [], raw = None\<rparr>"

definition save_request :: request where
  "save_request = \<lparr>req_method = ''post'', path = ''/save'', title = ''Save'', params = [], raw = None\<rparr>"

definition lost_request :: request where
  "lost_request = \<lparr>req_method = ''get'', path = ''/nowhere'', title = ''Lost'', params = [], raw = None\<rparr>"

definition defaults :: settings where
  "defaults = \<lparr>linkSelector = ''a'', formSelector = ''form'', logger = 0\<rparr>"

text \<open>
  A process in which nothing has been registered; an App instance built in it, and
  started; a handler of the embedding application registered after that; and a subscriber
  bound to \<open>stop\<close>.
\<close>

definition fresh :: world where
  "fresh = \<lparr>pushStateHandlers = [], popstateListeners = [], callbacks = [],
            routes = [home_route, save_route, save_again_route], settings = defaults,
            apps = [], pageLoad = page, trace = []\<rparr>"

definition constructed :: world where
  "constructed = snd (klass fresh)"

definition started_world :: world where
  "started_world = final (start 0 constructed)"

definition running_world :: world where
  "running_world = onChange (Opaque 5) started_world"

definition subscribed :: world where
  "subscribed = bind 0 ''stop'' (Some (UserCallback 7)) started_world"

text \<open>
  Native popstate events whose state is the number 0, a Request, and absent.
\<close>

definition zero_event :: popstate_event where
  "zero_event = \<lparr>state = JNum 0\<rparr>"

definition saved_event :: popstate_event where
  "saved_event = \<lparr>state = JReq save_request\<rparr>"

definition absent_event :: popstate_event where
  "absent_event = \<lparr>state = JNull\<rparr>"

text \<open>
  A configuration function that replaces the logger.
\<close>

definition new_logger :: "settings \<Rightarrow> settings" where
  "new_logger s = s\<lparr>logger := 9\<rparr>"

section \<open>Properties\<close>

subsection \<open>Route lookup\<close>

lemma lookup_find: "lookup rs m p = find (\<lambda>r. route_matches r m p) rs"
  by (induction rs) (auto simp: route_matches_def split: option.splits)

theorem lookup_first_match:
  "(lookup rs m p = None \<longleftrightarrow> (\<forall>r \<in> set rs. \<not> route_matches r m p)) \<and>
   (lookup rs m p = Some r \<longleftrightarrow>
      (\<exists>i < length rs. rs ! i = r \<and> route_matches r m p \<and>
                        (\<forall>j < i. \<not> route_matches (rs ! j) m p)))"
  unfolding lookup_find by (auto simp: find_None_iff find_Some_iff)

theorem lookup_first_match_witness:
  "lookup [home_route, save_route, save_again_route] ''post'' ''/save'' = Some save_route \<and>
   lookup [home_route, save_route, save_again_route] ''put'' ''/save'' = None \<and>
   (\<exists>i < length [home_route, save_route, save_again_route].
      [home_route, save_route, save_again_route] ! i = save_route \<and>
      route_matches save_route ''post'' ''/save'' \<and>
      (\<forall>j < i. \<not> route_matches ([home_route, save_route, save_again_route] ! j)
                   ''post'' ''/save'')) \<and>
   \<not> route_matches home_route ''put'' ''/save'' \<and>
   \<not> route_matches save_route ''put'' ''/save'' \<and>
   \<not> route_matches save_again_route ''put'' ''/save''"
proof -
  have a: "lookup [home_route, save_route, save_again_route] ''post'' ''/save'' = Some save_route"
    by (simp add: home_route_def save_route_def save_again_route_def exact_def)
  have b: "lookup [home_route, save_route, save_again_route] ''put'' ''/save'' = None"
    by (simp add: home_route_def save_route_def save_again_route_def exact_def)
  from a b
    lookup_first_match [of "[home_route, save_route, save_again_route]" "''post''" "''/save''"
                           save_route]
    lookup_first_match [of "[home_route, save_route, save_again_route]" "''put''" "''/save''"]
  show ?thesis by simp
qed

subsection \<open>How the log grows\<close>

text \<open>
  Calling subscribers, triggering, dispatching and calling handlers write to the log and
  change nothing else; each lemma says which calls and which dispatch steps are written,
  and that the call returns when nothing it calls raises.
\<close>

lemma grows_refl: "grows w [] w"
  by (simp add: grows_def)

lemma grows_emit: "grows w [e] (emit e w)"
  by (simp add: grows_def emit_def)

lemma grows_trans: "grows w es w1 \<Longrightarrow> grows w1 es' w2 \<Longrightarrow> grows w (es @ es') w2"
  by (simp add: grows_def)

lemma grows_fields:
  assumes "grows w es w'"
  shows "pushStateHandlers w' = pushStateHandlers w" "popstateListeners w' = popstateListeners w"
    "callbacks w' = callbacks w" "routes w' = routes w" "settings w' = settings w"
    "apps w' = apps w" "pageLoad w' = pageLoad w" "trace w' = trace w @ es"
  using assms by (simp_all add: grows_def)

lemma call_subscriber_grows:
  "\<exists>es. grows w es (final (call_subscriber c args w)) \<and> filter is_call es = [] \<and>
        filter signal es = [] \<and> (callable c args \<longrightarrow> returns (call_subscriber c args w))"
proof (cases c)
  case None
  then show ?thesis using grows_refl [of w] by (intro exI [of _ "[]"]) simp
next
  case (Some s)
  show ?thesis
  proof (cases "callable c args")
    case True
    then show ?thesis using Some
      by (cases s) (auto intro!: exI [of _ "[e]" for e] simp: grows_def emit_def)
  next
    case False
    then show ?thesis using Some grows_refl [of w]
      by (cases s) (auto intro!: exI [of _ "[]"])
  qed
qed

lemma silent_Nil: "silent []"
  by (simp add: silent_def)

lemma silent_append: "silent (es @ es') \<longleftrightarrow> silent es \<and> silent es'"
  by (auto simp: silent_def)

lemma call_subscriber_silent:
  "\<exists>es. grows w es (final (call_subscriber c args w)) \<and> silent es \<and>
        (callable c args \<longrightarrow> returns (call_subscriber c args w))"
  using call_subscriber_grows [of w c args] by (simp add: silent_def)

lemma run_subscribers_silent:
  "\<exists>es. grows w es (final (run_subscribers cs args w)) \<and> silent es \<and>
        (list_all (\<lambda>c. callable c args) cs \<longrightarrow> returns (run_subscribers cs args w))"
proof (induction cs arbitrary: w)
  case Nil
  show ?case using grows_refl [of w] silent_Nil by (intro exI [of _ "[]"]) simp
next
  case (Cons c cs)
  obtain es where es: "grows w es (final (call_subscriber c args w))" "silent es"
    "callable c args \<longrightarrow> returns (call_subscriber c args w)"
    using call_subscriber_silent by blast
  show ?case
  proof (cases "call_subscriber c args w")
    case (Normal w1)
    obtain es' where es': "grows w1 es' (final (run_subscribers cs args w1))" "silent es'"
      "list_all (\<lambda>c. callable c args) cs \<longrightarrow> returns (run_subscribers cs args w1)"
      using Cons.IH by blast
    from es(1) Normal have "grows w es w1" by simp
    then have "grows w (es @ es') (final (run_subscribers cs args w1))"
      using es'(1) by (rule grows_trans)
    with es(2,3) es'(2,3) Normal show ?thesis
      by (intro exI [of _ "es @ es'"]) (simp add: silent_append)
  next
    case (Threw e w1)
    with es show ?thesis by (intro exI [of _ es]) auto
  qed
qed

lemma trigger_grows:
  "\<exists>es. grows w (Emitted self name args # es) (final (trigger self name args w)) \<and> silent es \<and>
        (quiet name args w \<longrightarrow> returns (trigger self name args w))"
proof -
  let ?w1 = "emit (Emitted self name args) w"
  obtain es where es: "grows ?w1 es (final (run_subscribers (bound name (callbacks w)) args ?w1))"
    "silent es"
    "list_all (\<lambda>c. callable c args) (bound name (callbacks w)) \<longrightarrow>
       returns (run_subscribers (bound name (callbacks w)) args ?w1)"
    using run_subscribers_silent by blast
  have "grows w ([Emitted self name args] @ es)
          (final (run_subscribers (bound name (callbacks w)) args ?w1))"
    using grows_emit es(1) by (rule grows_trans)
  with es(2,3) show ?thesis
    by (intro exI [of _ es]) (simp add: trigger_def quiet_def emit_def)
qed

lemma quiet_grows: "grows w es w' \<Longrightarrow> quiet name args w' = quiet name args w"
  by (simp add: grows_def quiet_def)

lemma signals_silent: "silent es \<Longrightarrow> filter signal es = [] \<and> filter is_call es = []"
  by (simp add: silent_def)

lemma dispatch_grows:
  "\<exists>es. grows w es (final (dispatch self v w)) \<and> filter is_call es = [] \<and>
        (dispatch_ok v w \<longrightarrow>
           returns (dispatch self v w) \<and> filter signal es = expected_signals self v (routes w))"
proof -
  let ?m = "prop_method v" and ?p = "prop_path v"
  obtain es1 where es1:
    "grows w (Emitted self ''lookupRoute'' [v] # es1) (final (trigger self ''lookupRoute'' [v] w))"
    "silent es1" "quiet ''lookupRoute'' [v] w \<longrightarrow> returns (trigger self ''lookupRoute'' [v] w)"
    using trigger_grows by blast
  note s1 = signals_silent [OF es1(2)]
  show ?thesis
  proof (cases "trigger self ''lookupRoute'' [v] w")
    case (Threw e w1)
    with es1 s1 show ?thesis
      by (intro exI [of _ "Emitted self ''lookupRoute'' [v] # es1"])
         (auto simp: dispatch_def dispatch_ok_def)
  next
    case (Normal w1)
    with es1(1) have g1: "grows w (Emitted self ''lookupRoute'' [v] # es1) w1" by simp
    show ?thesis
    proof (cases "nullish v")
      case True
      with Normal g1 s1 show ?thesis
        by (intro exI [of _ "Emitted self ''lookupRoute'' [v] # es1"])
           (auto simp: dispatch_def dispatch_ok_def)
    next
      case False
      let ?w2 = "emit (LookupCalled ?m ?p) w1"
      have g2: "grows w ((Emitted self ''lookupRoute'' [v] # es1) @ [LookupCalled ?m ?p]) ?w2"
        using g1 grows_emit by (rule grows_trans)
      have r2: "routes ?w2 = routes w" using g2 by (rule grows_fields)
      show ?thesis
      proof (cases "lookup_props (routes w) ?m ?p")
        case None
        obtain es3 where es3:
          "grows ?w2 (Emitted self ''routeNotFound'' [v] # es3)
             (final (trigger self ''routeNotFound'' [v] ?w2))"
          "silent es3"
          "quiet ''routeNotFound'' [v] ?w2 \<longrightarrow> returns (trigger self ''routeNotFound'' [v] ?w2)"
          using trigger_grows by blast
        note s3 = signals_silent [OF es3(2)]
        have d: "dispatch self v w = trigger self ''routeNotFound'' [v] ?w2"
          using Normal False None r2 by (simp add: dispatch_def Let_def)
        have "grows w (((Emitted self ''lookupRoute'' [v] # es1) @ [LookupCalled ?m ?p]) @
                        (Emitted self ''routeNotFound'' [v] # es3))
                (final (dispatch self v w))"
          unfolding d using g2 es3(1) by (rule grows_trans)
        moreover have "dispatch_ok v w \<longrightarrow> returns (dispatch self v w)"
          unfolding d using es3(3) None quiet_grows [OF g2] by (simp add: dispatch_ok_def)
        ultimately show ?thesis using s1 s3 None
          by (intro exI [of _ "((Emitted self ''lookupRoute'' [v] # es1) @ [LookupCalled ?m ?p]) @
                        (Emitted self ''routeNotFound'' [v] # es3)"])
             (simp add: expected_signals_def)
      next
        case (Some r)
        obtain es3 where es3:
          "grows ?w2 (Emitted self ''runRoute'' [v] # es3)
             (final (trigger self ''runRoute'' [v] ?w2))"
          "silent es3"
          "quiet ''runRoute'' [v] ?w2 \<longrightarrow> returns (trigger self ''runRoute'' [v] ?w2)"
          using trigger_grows by blast
        note s3 = signals_silent [OF es3(2)]
        have d: "dispatch self v w =
                   andThen (trigger self ''runRoute'' [v] ?w2) (\<lambda>w3. Normal (run r v w3))"
          using Normal False Some r2 by (simp add: dispatch_def Let_def)
        have g3: "grows w (((Emitted self ''lookupRoute'' [v] # es1) @ [LookupCalled ?m ?p]) @
                        (Emitted self ''runRoute'' [v] # es3))
                (final (trigger self ''runRoute'' [v] ?w2))"
          using g2 es3(1) by (rule grows_trans)
        show ?thesis
        proof (cases "trigger self ''runRoute'' [v] ?w2")
          case (Threw e w3)
          with g3 es3(3) s1 s3 Some quiet_grows [OF g2] show ?thesis unfolding d
            by (intro exI [of _ "((Emitted self ''lookupRoute'' [v] # es1) @ [LookupCalled ?m ?p]) @
                        (Emitted self ''runRoute'' [v] # es3)"])
               (auto simp: dispatch_ok_def)
        next
          case N3: (Normal w3)
          with g3 have "grows w (((Emitted self ''lookupRoute'' [v] # es1) @ [LookupCalled ?m ?p]) @
                        (Emitted self ''runRoute'' [v] # es3)) w3" by simp
          then have "grows w ((((Emitted self ''lookupRoute'' [v] # es1) @ [LookupCalled ?m ?p]) @
                        (Emitted self ''runRoute'' [v] # es3)) @ [RouteRun (callback r) v])
                       (run r v w3)"
            unfolding run_def using grows_emit by (rule grows_trans)
          with N3 s1 s3 Some show ?thesis unfolding d
            by (intro exI [of _ "(((Emitted self ''lookupRoute'' [v] # es1) @ [LookupCalled ?m ?p]) @
                        (Emitted self ''runRoute'' [v] # es3)) @ [RouteRun (callback r) v]"])
               (simp add: expected_signals_def)
        qed
      qed
    qed
  qed
qed

lemma handler_ok_grows: "grows w es w' \<Longrightarrow> handler_ok h v w' = handler_ok h v w"
  by (cases h) (simp_all add: grows_fields(4) quiet_grows dispatch_ok_def split: option.splits)

lemma invoke_grows:
  "\<exists>es. grows w (Called h v # es) (final (invoke h v w)) \<and> filter is_call es = [] \<and>
        (handler_ok h v w \<longrightarrow>
           returns (invoke h v w) \<and> filter signal es = handler_signals h v (routes w))"
proof (cases h)
  case (Opaque n)
  then show ?thesis using grows_emit [of w "Called h v"] by (intro exI [of _ "[]"]) simp
next
  case (Dispatch self)
  let ?w1 = "emit (Called h v) w"
  have g1: "grows w [Called h v] ?w1" by (rule grows_emit)
  obtain es where es: "grows ?w1 es (final (dispatch self v ?w1))" "filter is_call es = []"
    "dispatch_ok v ?w1 \<longrightarrow>
       returns (dispatch self v ?w1) \<and> filter signal es = expected_signals self v (routes ?w1)"
    using dispatch_grows by blast
  have "grows w ([Called h v] @ es) (final (dispatch self v ?w1))"
    using g1 es(1) by (rule grows_trans)
  moreover have "routes ?w1 = routes w" using g1 by (rule grows_fields)
  moreover have "dispatch_ok v ?w1 = dispatch_ok v w"
    using handler_ok_grows [OF g1, of "Dispatch self" v] by simp
  ultimately show ?thesis using es(2,3) Dispatch by (intro exI [of _ es]) simp
qed

lemma forEach_grows:
  "\<exists>es. grows w es (final (forEach hs v w)) \<and>
        (list_all (\<lambda>h. handler_ok h v w) hs \<longrightarrow>
           returns (forEach hs v w) \<and> filter is_call es = map (\<lambda>h. Called h v) hs \<and>
           filter signal es = concat (map (\<lambda>h. handler_signals h v (routes w)) hs))"
proof (induction hs arbitrary: w)
  case Nil
  show ?case using grows_refl [of w] by (intro exI [of _ "[]"]) simp
next
  case (Cons h hs)
  obtain es where es: "grows w (Called h v # es) (final (invoke h v w))" "filter is_call es = []"
    "handler_ok h v w \<longrightarrow>
       returns (invoke h v w) \<and> filter signal es = handler_signals h v (routes w)"
    using invoke_grows by blast
  show ?case
  proof (cases "invoke h v w")
    case (Threw e w1)
    with es show ?thesis by (intro exI [of _ "Called h v # es"]) auto
  next
    case (Normal w1)
    with es(1) have g1: "grows w (Called h v # es) w1" by simp
    obtain es' where es': "grows w1 es' (final (forEach hs v w1))"
      "list_all (\<lambda>h. handler_ok h v w1) hs \<longrightarrow>
         returns (forEach hs v w1) \<and> filter is_call es' = map (\<lambda>h. Called h v) hs \<and>
         filter signal es' = concat (map (\<lambda>h. handler_signals h v (routes w1)) hs)"
      using Cons.IH by blast
    have g: "grows w ((Called h v # es) @ es') (final (forEach hs v w1))"
      using g1 es'(1) by (rule grows_trans)
    have r: "routes w1 = routes w" using g1 by (rule grows_fields)
    have ok: "list_all (\<lambda>h. handler_ok h v w1) hs = list_all (\<lambda>h. handler_ok h v w) hs"
      using handler_ok_grows [OF g1] by simp
    from g es(2,3) es'(2) Normal show ?thesis unfolding ok r
      by (intro exI [of _ "(Called h v # es) @ es'"]) simp
  qed
qed

lemma forEach_after_host:
  assumes "list_all (\<lambda>h. handler_ok h v w) (pushStateHandlers w)"
  shows "\<exists>w' es. forEach (pushStateHandlers w) v (emit host w) = Normal w' \<and>
           grows w (host # es) w' \<and>
           filter is_call es = map (\<lambda>h. Called h v) (pushStateHandlers w) \<and>
           filter signal es =
             concat (map (\<lambda>h. handler_signals h v (routes w)) (pushStateHandlers w))"
proof -
  let ?w1 = "emit host w" and ?hs = "pushStateHandlers w"
  have g1: "grows w [host] ?w1" by (rule grows_emit)
  have r1: "routes ?w1 = routes w" using g1 by (rule grows_fields)
  obtain es where es: "grows ?w1 es (final (forEach ?hs v ?w1))"
    "list_all (\<lambda>h. handler_ok h v ?w1) ?hs \<longrightarrow>
       returns (forEach ?hs v ?w1) \<and> filter is_call es = map (\<lambda>h. Called h v) ?hs \<and>
       filter signal es = concat (map (\<lambda>h. handler_signals h v (routes ?w1)) ?hs)"
    using forEach_grows [of ?w1 ?hs v] by blast
  have "list_all (\<lambda>h. handler_ok h v ?w1) ?hs"
    using assms handler_ok_grows [OF g1] by simp
  with es(2) have ret: "returns (forEach ?hs v ?w1)"
    and calls: "filter is_call es = map (\<lambda>h. Called h v) ?hs"
    and sigs: "filter signal es = concat (map (\<lambda>h. handler_signals h v (routes w)) ?hs)"
    unfolding r1 by simp_all
  from ret obtain w' where w': "forEach ?hs v ?w1 = Normal w'"
    by (cases "forEach ?hs v ?w1") simp_all
  with es(1) have "grows ?w1 es w'" by simp
  with g1 have "grows w ([host] @ es) w'" by (rule grows_trans)
  with w' calls sigs show ?thesis by auto
qed

lemma final_forEach_after_host:
  "\<exists>es. grows w es (final (forEach (pushStateHandlers w) v (emit host w)))"
proof -
  obtain es where "grows (emit host w) es (final (forEach (pushStateHandlers w) v (emit host w)))"
    using forEach_grows by blast
  with grows_emit have "grows w ([host] @ es) (final (forEach (pushStateHandlers w) v (emit host w)))"
    by (rule grows_trans)
  then show ?thesis by blast
qed

lemma wrapped_invoke: "wrapped h event w = invoke h (delivered event w) w"
  by (simp add: wrapped_def delivered_def)

lemma fire_grows:
  "\<exists>es. grows w es (fire ls event w) \<and>
        filter is_call es = map (\<lambda>l. Called (wraps l) (delivered event w)) ls \<and>
        (list_all (\<lambda>l. handler_ok (wraps l) (delivered event w) w) ls \<longrightarrow>
           filter signal es =
             concat (map (\<lambda>l. handler_signals (wraps l) (delivered event w) (routes w)) ls))"
proof (induction ls arbitrary: w)
  case Nil
  show ?case using grows_refl [of w] by (intro exI [of _ "[]"]) simp
next
  case (Cons l ls)
  obtain h where l: "l = Wrapped h" by (cases l)
  let ?v = "delivered event w"
  let ?w1 = "final (wrapped h event w)"
  obtain es where es: "grows w (Called h ?v # es) ?w1" "filter is_call es = []"
    "handler_ok h ?v w \<longrightarrow> filter signal es = handler_signals h ?v (routes w)"
    using invoke_grows [of w h ?v] unfolding wrapped_invoke by blast
  have v1: "delivered event ?w1 = ?v"
    using grows_fields(7) [OF es(1)] by (simp add: delivered_def)
  have r: "routes ?w1 = routes w" using es(1) by (rule grows_fields)
  obtain es' where es': "grows ?w1 es' (fire ls event ?w1)"
    "filter is_call es' = map (\<lambda>l. Called (wraps l) ?v) ls"
    "list_all (\<lambda>l. handler_ok (wraps l) ?v ?w1) ls \<longrightarrow>
       filter signal es' = concat (map (\<lambda>l. handler_signals (wraps l) ?v (routes w)) ls)"
    using Cons.IH [of ?w1] unfolding v1 r by blast
  have g: "grows w ((Called h ?v # es) @ es') (fire (l # ls) event w)"
    using grows_trans [OF es(1) es'(1)] l by simp
  have ok: "list_all (\<lambda>l. handler_ok (wraps l) ?v ?w1) ls =
            list_all (\<lambda>l. handler_ok (wraps l) ?v w) ls"
    using handler_ok_grows [OF es(1)] by simp
  from g es(2,3) es'(2,3) l show ?case unfolding ok
    by (intro exI [of _ "(Called h ?v # es) @ es'"]) simp
qed

lemma popstate_grows:
  "\<exists>es. trace (popstate event w) = trace w @ es \<and>
        filter is_call es = map (\<lambda>l. Called (wraps l) (delivered event w)) (popstateListeners w)"
proof -
  obtain es where "grows w es (fire (popstateListeners w) event w)"
    "filter is_call es = map (\<lambda>l. Called (wraps l) (delivered event w)) (popstateListeners w)"
    using fire_grows [of w "popstateListeners w" event] by blast
  then show ?thesis by (auto simp: popstate_def grows_def)
qed

lemma delivered_not_nullish: "\<not> nullish (delivered event w)"
  by (cases "state event") (simp_all add: delivered_def)

subsection \<open>What start and stop leave\<close>

text \<open>
  \<open>start\<close> either returns, having bound, listened, triggered, registered and set
  \<open>running\<close>, or raises in its \<open>trigger\<close>, before it registers anything.
\<close>

lemma start_unfold:
  "start self w =
     andThen (trigger self ''start'' [] (bound_three self w))
       (\<lambda>w5. Normal (set_running self True (onChange (Dispatch self) w5)))"
  by (simp add: start_def bound_three_def bind_def listen_def emit_def
        default_subscriptions_def Let_def)

lemma quiet_start_bound_three:
  "quiet ''start'' [] (bound_three self w) = quiet ''start'' [] w"
  by (simp add: quiet_def bound_three_def bound_def default_subscriptions_def)

lemma start_cases:
  "\<exists>es. silent es \<and>
     (case start self w of
        Normal w' \<Rightarrow> w' = started self w es
      | Threw e w' \<Rightarrow> grows (bound_three self w) (Emitted self ''start'' [] # es) w') \<and>
     (quiet ''start'' [] w \<longrightarrow> returns (start self w))"
proof -
  let ?w4 = "bound_three self w"
  obtain es where es:
    "grows ?w4 (Emitted self ''start'' [] # es) (final (trigger self ''start'' [] ?w4))"
    "silent es" "quiet ''start'' [] ?w4 \<longrightarrow> returns (trigger self ''start'' [] ?w4)"
    using trigger_grows by blast
  show ?thesis
  proof (cases "trigger self ''start'' [] ?w4")
    case (Normal w5)
    with es(1) have "w5 = ?w4\<lparr>trace := trace ?w4 @ Emitted self ''start'' [] # es\<rparr>"
      by (simp add: grows_def)
    then have "set_running self True (onChange (Dispatch self) w5) = started self w es"
      by (simp add: started_def bound_three_def set_running_def onChange_def onPushState_def
            onPopState_def)
    with Normal es(2) show ?thesis
      by (intro exI [of _ es]) (simp add: start_unfold)
  next
    case (Threw e w5)
    with es show ?thesis
      by (intro exI [of _ es]) (simp add: start_unfold quiet_start_bound_three)
  qed
qed

lemma start_Normal:
  assumes "start self w = Normal w'"
  shows "\<exists>es. silent es \<and> w' = started self w es"
  using start_cases [of self w] assms by auto

lemma start_returns:
  assumes "quiet ''start'' [] w"
  shows "\<exists>es. silent es \<and> start self w = Normal (started self w es)"
proof -
  obtain es where es: "silent es"
    "case start self w of Normal w' \<Rightarrow> w' = started self w es
     | Threw e w' \<Rightarrow> grows (bound_three self w) (Emitted self ''start'' [] # es) w'"
    "returns (start self w)"
    using start_cases [of self w] assms by blast
  then show ?thesis by (cases "start self w") auto
qed

lemma stop_effect:
  "stop self w = Normal (w\<lparr>callbacks := callbacks w @ [(''stop'', None)],
                            trace := trace w @ [UnlistenCalled self]\<rparr>)"
  by (simp add: stop_def bind_def unlisten_def emit_def)

subsection \<open>The example worlds\<close>

lemma constructed_fields:
  "pushStateHandlers constructed = []" "popstateListeners constructed = []"
  "callbacks constructed = []"
  "routes constructed = [home_route, save_route, save_again_route]"
  "pageLoad constructed = page"
  "apps constructed = [\<lparr>foo = ''bar'', running = False\<rparr>]"
  by (simp_all add: constructed_def klass_def fresh_def)

lemma started_world_fields:
  "start 0 constructed = Normal started_world"
  "callbacks started_world = default_subscriptions 0"
  "apps started_world = [\<lparr>foo = ''bar'', running = True\<rparr>]"
  "trace started_world =
     [ListenCalled 0, Emitted 0 ''start'' [], Logged Info 0 ''application started'' None]"
  "pushStateHandlers started_world = [Dispatch 0]"
  "popstateListeners started_world = [Wrapped (Dispatch 0)]"
  "routes started_world = [home_route, save_route, save_again_route]"
  "pageLoad started_world = page"
  "settings started_world = defaults"
  by (simp_all add: started_world_def constructed_def fresh_def klass_def start_def bind_def
        listen_def trigger_def bound_def emit_def onChange_def onPushState_def onPopState_def
        set_running_def get_settings_def defaults_def default_subscriptions_def)

lemma started_world_routes:
  "routes started_world = [home_route, save_route, save_again_route]"
  by (simp add: started_world_def constructed_def fresh_def klass_def start_def bind_def
        listen_def trigger_def bound_def emit_def onChange_def onPushState_def onPopState_def
        set_running_def get_settings_def defaults_def)

lemma running_world_fields:
  "pushStateHandlers running_world = [Dispatch 0, Opaque 5]"
  "popstateListeners running_world = [Wrapped (Dispatch 0), Wrapped (Opaque 5)]"
  "callbacks running_world = default_subscriptions 0"
  "routes running_world = [home_route, save_route, save_again_route]"
  "apps running_world = [\<lparr>foo = ''bar'', running = True\<rparr>]"
  "trace running_world =
     [ListenCalled 0, Emitted 0 ''start'' [], Logged Info 0 ''application started'' None]"
  "pageLoad running_world = page"
  "settings running_world = defaults"
  by (simp_all add: running_world_def onChange_def onPushState_def onPopState_def
        started_world_fields)

lemma save_request_signals:
  "expected_signals 0 (JReq save_request) (routes constructed) =
     [Emitted 0 ''lookupRoute'' [JReq save_request],
      LookupCalled (Some ''post'') (Some ''/save''),
      Emitted 0 ''runRoute'' [JReq save_request],
      RouteRun 2 (JReq save_request)]"
  by (simp add: expected_signals_def constructed_fields save_request_def home_route_def
        save_route_def save_again_route_def exact_def)

subsection \<open>davis.history.js: pushState and replaceState\<close>

text \<open>
  Claim C1. A call of \<open>pushState(request)\<close> first calls the host's \<open>history.pushState\<close>
  with \<open>(request, request.title, request.path)\<close>, and \<open>replaceState(request)\<close> the host's
  \<open>history.replaceState\<close> with the same arguments; after that every handler registered
  through \<open>onChange\<close> is called exactly once, in registration order, with that same
  request, before the call returns. The hypothesis is that no handler raises: a handler
  that raises ends the \<open>forEach\<close>.
\<close>

theorem pushState_replaceState_relay:
  assumes "list_all (\<lambda>h. handler_ok h (JReq request) w) (pushStateHandlers w)"
  shows "(\<exists>w' es. pushState request w = Normal w' \<and>
            trace w' = trace w @ HostPushState request (title request) (path request) # es \<and>
            filter is_call es = map (\<lambda>h. Called h (JReq request)) (pushStateHandlers w)) \<and>
         (\<exists>w' es. replaceState request w = Normal w' \<and>
            trace w' = trace w @ HostReplaceState request (title request) (path request) # es \<and>
            filter is_call es = map (\<lambda>h. Called h (JReq request)) (pushStateHandlers w)) \<and>
         pushStateHandlers (onChange h w) = pushStateHandlers w @ [h]"
proof -
  have relay: "\<exists>w' es. forEach (pushStateHandlers w) (JReq request) (emit host w) = Normal w' \<and>
            trace w' = trace w @ host # es \<and>
            filter is_call es = map (\<lambda>h. Called h (JReq request)) (pushStateHandlers w)"
    for host
  proof -
    obtain w' es where "forEach (pushStateHandlers w) (JReq request) (emit host w) = Normal w'"
      "grows w (host # es) w'"
      "filter is_call es = map (\<lambda>h. Called h (JReq request)) (pushStateHandlers w)"
      using forEach_after_host [OF assms, of host] by blast
    moreover from this(2) have "trace w' = trace w @ host # es" by (rule grows_fields)
    ultimately show ?thesis by blast
  qed
  have h: "pushStateHandlers (emit host w) = pushStateHandlers w" for host
    by (simp add: emit_def)
  show ?thesis
    using relay [of "HostPushState request (title request) (path request)"]
      relay [of "HostReplaceState request (title request) (path request)"]
    by (simp add: pushState_def replaceState_def Let_def h onChange_def onPushState_def
          onPopState_def)
qed

theorem pushState_replaceState_relay_witness:
  "list_all (\<lambda>h. handler_ok h (JReq save_request) running_world)
     (pushStateHandlers running_world) \<and>
   (\<exists>w' es. pushState save_request running_world = Normal w' \<and>
      trace w' = trace running_world @ HostPushState save_request ''Save'' ''/save'' # es \<and>
      filter is_call es =
        [Called (Dispatch 0) (JReq save_request), Called (Opaque 5) (JReq save_request)]) \<and>
   (\<exists>w' es. replaceState save_request running_world = Normal w' \<and>
      trace w' = trace running_world @ HostReplaceState save_request ''Save'' ''/save'' # es \<and>
      filter is_call es =
        [Called (Dispatch 0) (JReq save_request), Called (Opaque 5) (JReq save_request)])"
proof -
  have ok: "list_all (\<lambda>h. handler_ok h (JReq save_request) running_world)
              (pushStateHandlers running_world)"
    by (simp add: running_world_fields default_subscriptions_def dispatch_ok_def quiet_def bound_def save_request_def
          home_route_def save_route_def save_again_route_def exact_def)
  show ?thesis
    using ok pushState_replaceState_relay [OF ok]
    by (simp add: running_world_fields default_subscriptions_def save_request_def)
qed

text \<open>
  The whole log of one \<open>pushState\<close> in the example world.
\<close>

lemma pushState_example:
  "trace (final (pushState save_request running_world)) =
     trace running_world @
     [HostPushState save_request ''Save'' ''/save'',
      Called (Dispatch 0) (JReq save_request),
      Emitted 0 ''lookupRoute'' [JReq save_request],
      LookupCalled (Some ''post'') (Some ''/save''),
      Emitted 0 ''runRoute'' [JReq save_request],
      Logged Info 0 ''runRoute: '' (Some (JReq save_request)),
      RouteRun 2 (JReq save_request),
      Called (Opaque 5) (JReq save_request)]"
  by (simp add: pushState_def running_world_fields default_subscriptions_def emit_def dispatch_def trigger_def bound_def
        run_def get_settings_def defaults_def save_request_def home_route_def save_route_def
        save_again_route_def exact_def)

subsection \<open>davis.history.js: native popstate events\<close>

text \<open>
  Claim C2, as amended. For a native popstate event, every handler registered through
  \<open>onChange\<close> is called once, in registration order: with the event's state itself when
  that state is truthy, and with the Request of \<open>Davis.Request.forPageLoad()\<close> when the
  state is absent or otherwise falsy.
\<close>

theorem popstate_delivers_truthy_state_or_page_load:
  "(truthy (state event) \<longrightarrow> delivered event w = state event) \<and>
   (\<not> truthy (state event) \<longrightarrow> delivered event w = JReq (pageLoad w)) \<and>
   wrapped h event w = invoke h (delivered event w) w \<and>
   popstateListeners (onChange h w) = popstateListeners w @ [Wrapped h] \<and>
   (\<exists>es. trace (popstate event w) = trace w @ es \<and>
         filter is_call es = map (\<lambda>l. Called (wraps l) (delivered event w)) (popstateListeners w))"
  using popstate_grows [of event w]
  by (simp add: wrapped_invoke delivered_def onChange_def onPopState_def onPushState_def)

theorem popstate_delivers_truthy_state_or_page_load_witness:
  "truthy (state saved_event) \<and>
   delivered saved_event running_world = state saved_event \<and>
   \<not> truthy (state absent_event) \<and>
   delivered absent_event running_world = JReq (pageLoad running_world) \<and>
   wrapped (Opaque 5) saved_event running_world =
     invoke (Opaque 5) (state saved_event) running_world \<and>
   (\<exists>es. trace (popstate saved_event running_world) = trace running_world @ es \<and>
         filter is_call es =
           map (\<lambda>l. Called (wraps l) (state saved_event)) (popstateListeners running_world))"
proof -
  have t: "truthy (state saved_event)" and f: "\<not> truthy (state absent_event)"
    by (simp_all add: saved_event_def absent_event_def)
  note a = popstate_delivers_truthy_state_or_page_load [of saved_event running_world "Opaque 5"]
  note b = popstate_delivers_truthy_state_or_page_load [of absent_event running_world "Opaque 5"]
  from t a have d: "delivered saved_event running_world = state saved_event" by blast
  from f b have d': "delivered absent_event running_world = JReq (pageLoad running_world)"
    by blast
  from a have w: "wrapped (Opaque 5) saved_event running_world =
                    invoke (Opaque 5) (state saved_event) running_world"
    unfolding d by blast
  from a have c: "\<exists>es. trace (popstate saved_event running_world) = trace running_world @ es \<and>
         filter is_call es =
           map (\<lambda>l. Called (wraps l) (state saved_event)) (popstateListeners running_world)"
    unfolding d by blast
  from t d f d' w c show ?thesis by blast
qed

text \<open>
  Claim C2 as stated fails for a state that is present and falsy: with the state \<open>0\<close> the
  handler is called with the page-load Request, not with \<open>0\<close>.
\<close>

theorem present_falsy_state_counterexample:
  "state zero_event \<noteq> JNull \<and> state zero_event \<noteq> JUndefined \<and>
   trace (final (wrapped (Opaque 5) zero_event running_world)) =
     trace running_world @ [Called (Opaque 5) (JReq page)] \<and>
   trace (final (wrapped (Opaque 5) zero_event running_world)) \<noteq>
     trace (final (invoke (Opaque 5) (state zero_event) running_world))"
  by (simp add: zero_event_def wrapped_def emit_def running_world_fields)



subsection \<open>davis.app.js: the dispatch of a request\<close>

text \<open>
  Claim C3. A \<open>start\<close> that returns has registered its closure with \<open>onChange\<close>, for
  pushes and for native popstate events. Each time that closure is called with a Request,
  the App emits \<open>lookupRoute\<close> once and looks the route up once; on a hit it emits
  \<open>runRoute\<close> once and then runs the matched route's callback with the Request, on a miss
  it emits \<open>routeNotFound\<close> once and runs no route callback. The hypothesis is that no
  subscriber of these notifications raises.
\<close>

theorem dispatch_once_per_request:
  assumes "start self w0 = Normal w1" and "dispatch_ok (JReq r) w"
  shows "pushStateHandlers w1 = pushStateHandlers w0 @ [Dispatch self] \<and>
         popstateListeners w1 = popstateListeners w0 @ [Wrapped (Dispatch self)] \<and>
         (\<exists>w' es. invoke (Dispatch self) (JReq r) w = Normal w' \<and>
            trace w' = trace w @ Called (Dispatch self) (JReq r) # es \<and>
            filter signal es =
              (case lookup (routes w) (req_method r) (path r) of
                 Some rt \<Rightarrow>
                   [Emitted self ''lookupRoute'' [JReq r],
                    LookupCalled (Some (req_method r)) (Some (path r)),
                    Emitted self ''runRoute'' [JReq r],
                    RouteRun (callback rt) (JReq r)]
               | None \<Rightarrow>
                   [Emitted self ''lookupRoute'' [JReq r],
                    LookupCalled (Some (req_method r)) (Some (path r)),
                    Emitted self ''routeNotFound'' [JReq r]]))"
proof -
  obtain es0 where "w1 = started self w0 es0" using start_Normal [OF assms(1)] by blast
  then have reg: "pushStateHandlers w1 = pushStateHandlers w0 @ [Dispatch self]"
    "popstateListeners w1 = popstateListeners w0 @ [Wrapped (Dispatch self)]"
    by (simp_all add: started_def)
  let ?h = "Dispatch self" and ?v = "JReq r"
  obtain es where es: "grows w (Called ?h ?v # es) (final (invoke ?h ?v w))"
    "handler_ok ?h ?v w \<longrightarrow>
       returns (invoke ?h ?v w) \<and> filter signal es = handler_signals ?h ?v (routes w)"
    using invoke_grows [of w ?h ?v] by blast
  from es(2) assms(2) have ret: "returns (invoke ?h ?v w)"
    and sig: "filter signal es = expected_signals self ?v (routes w)" by simp_all
  from ret obtain w' where w': "invoke ?h ?v w = Normal w'"
    by (cases "invoke ?h ?v w") simp_all
  with es(1) have "trace w' = trace w @ Called ?h ?v # es" by (simp add: grows_def)
  moreover have "expected_signals self ?v (routes w) =
      (case lookup (routes w) (req_method r) (path r) of
         Some rt \<Rightarrow>
           [Emitted self ''lookupRoute'' [JReq r],
            LookupCalled (Some (req_method r)) (Some (path r)),
            Emitted self ''runRoute'' [JReq r],
            RouteRun (callback rt) (JReq r)]
       | None \<Rightarrow>
           [Emitted self ''lookupRoute'' [JReq r],
            LookupCalled (Some (req_method r)) (Some (path r)),
            Emitted self ''routeNotFound'' [JReq r]])"
    by (simp add: expected_signals_def split: option.splits)
  ultimately show ?thesis using reg w' sig by auto
qed

theorem dispatch_once_per_request_witness:
  "start 0 constructed = Normal started_world \<and>
   dispatch_ok (JReq save_request) started_world \<and>
   dispatch_ok (JReq lost_request) started_world \<and>
   pushStateHandlers started_world = pushStateHandlers constructed @ [Dispatch 0] \<and>
   (\<exists>w' es. invoke (Dispatch 0) (JReq save_request) started_world = Normal w' \<and>
      trace w' = trace started_world @ Called (Dispatch 0) (JReq save_request) # es \<and>
      filter signal es =
        [Emitted 0 ''lookupRoute'' [JReq save_request],
         LookupCalled (Some ''post'') (Some ''/save''),
         Emitted 0 ''runRoute'' [JReq save_request],
         RouteRun 2 (JReq save_request)]) \<and>
   (\<exists>w' es. invoke (Dispatch 0) (JReq lost_request) started_world = Normal w' \<and>
      trace w' = trace started_world @ Called (Dispatch 0) (JReq lost_request) # es \<and>
      filter signal es =
        [Emitted 0 ''lookupRoute'' [JReq lost_request],
         LookupCalled (Some ''get'') (Some ''/nowhere''),
         Emitted 0 ''routeNotFound'' [JReq lost_request]])"
proof -
  have s: "start 0 constructed = Normal started_world" by (rule started_world_fields)
  have m: "req_method save_request = ''post''" "path save_request = ''/save''"
    "req_method lost_request = ''get''" "path lost_request = ''/nowhere''"
    "callback save_route = 2"
    by (simp_all add: save_request_def lost_request_def save_route_def)
  have hit: "lookup (routes started_world) ''post'' ''/save'' = Some save_route"
    and miss: "lookup (routes started_world) ''get'' ''/nowhere'' = None"
    by (simp_all add: started_world_routes
          home_route_def save_route_def save_again_route_def exact_def)
  have ok1: "dispatch_ok (JReq save_request) started_world"
    using hit by (simp add: m dispatch_ok_def quiet_def bound_def started_world_fields
          default_subscriptions_def)
  have ok2: "dispatch_ok (JReq lost_request) started_world"
    using miss by (simp add: m dispatch_ok_def quiet_def bound_def started_world_fields
          default_subscriptions_def)
  note a = dispatch_once_per_request [OF s ok1, unfolded hit option.case m]
  note b = dispatch_once_per_request [OF s ok2, unfolded miss option.case m]
  from s ok1 ok2 a b show ?thesis by simp
qed

subsection \<open>davis.app.js: stop and the running flag\<close>

text \<open>
  Claim C4. \<open>stop\<close> calls \<open>unlisten\<close>, and then \<open>bind('stop')\<close> where the claim has a
  \<open>stop\<close> notification: with a subscriber bound to \<open>stop\<close>, the call logs the
  \<open>unlisten\<close> only and adds an \<open>undefined\<close> subscriber to the registry, while
  \<open>trigger('stop')\<close> would have emitted the notification and called the subscriber.
\<close>

theorem stop_binds_instead_of_triggering:
  "trace (final (stop 0 subscribed)) = trace subscribed @ [UnlistenCalled 0] \<and>
   callbacks (final (stop 0 subscribed)) =
     default_subscriptions 0 @ [(''stop'', Some (UserCallback 7)), (''stop'', None)] \<and>
   trace (final (trigger 0 ''stop'' [] subscribed)) =
     trace subscribed @ [Emitted 0 ''stop'' [], SubscriberCalled 7 []]"
  by (simp add: stop_effect subscribed_def bind_def started_world_fields trigger_def bound_def
        emit_def default_subscriptions_def)

text \<open>
  Claim C5. \<open>running\<close> is false after construction and true after \<open>start\<close>, and it is
  still true after \<open>stop\<close>, which never writes it.
\<close>

theorem running_stays_true_after_stop:
  "map_option running (instance_at constructed 0) = Some False \<and>
   start 0 constructed = Normal started_world \<and>
   map_option running (instance_at started_world 0) = Some True \<and>
   map_option running (instance_at (final (stop 0 started_world)) 0) = Some True"
  by (simp add: stop_effect instance_at_def started_world_fields constructed_fields)

subsection \<open>The handler lists over a session\<close>

lemma perform_handlers:
  "prefix (pushStateHandlers w) (pushStateHandlers (perform op w)) \<and>
   prefix (popstateListeners w) (popstateListeners (perform op w))"
proof (cases op)
  case (PushState r)
  obtain es where "grows w es (final (pushState r w))"
    using final_forEach_after_host [of w "JReq r"]
    by (auto simp: pushState_def Let_def emit_def)
  with PushState show ?thesis by (simp add: grows_def)
next
  case (ReplaceState r)
  obtain es where "grows w es (final (replaceState r w))"
    using final_forEach_after_host [of w "JReq r"]
    by (auto simp: replaceState_def Let_def emit_def)
  with ReplaceState show ?thesis by (simp add: grows_def)
next
  case (Popstate event)
  obtain es where "grows w es (popstate event w)"
    using fire_grows [of w "popstateListeners w" event] by (auto simp: popstate_def)
  with Popstate show ?thesis by (simp add: grows_def)
next
  case (Start self)
  obtain es where es: "case start self w of
        Normal w' \<Rightarrow> w' = started self w es
      | Threw e w' \<Rightarrow> grows (bound_three self w) (Emitted self ''start'' [] # es) w'"
    using start_cases [of self w] by blast
  show ?thesis
  proof (cases "start self w")
    case (Normal w')
    with es Start show ?thesis by (simp add: started_def)
  next
    case (Threw e w')
    with es Start show ?thesis by (simp add: grows_def bound_three_def)
  qed
next
  case (Trigger self name args)
  obtain es where "grows w (Emitted self name args # es) (final (trigger self name args w))"
    using trigger_grows by blast
  with Trigger show ?thesis by (simp add: grows_def)
qed (simp_all add: onChange_def onPushState_def onPopState_def klass_def configure_def
       stop_effect bind_def)

lemma perform_all_handlers:
  "prefix (pushStateHandlers w) (pushStateHandlers (perform_all ops w)) \<and>
   prefix (popstateListeners w) (popstateListeners (perform_all ops w))"
proof (induction ops arbitrary: w)
  case Nil
  show ?case by simp
next
  case (Cons op ops)
  from perform_handlers [of w op] Cons.IH [of "perform op w"] show ?case
    by (auto intro: prefix_order.trans)
qed

text \<open>
  Claim C7. Over any session of operations the list of push-state handlers only grows at
  its end, and so does the list of popstate listeners: \<open>onPushState\<close> and \<open>onChange\<close>
  append their handler, no operation removes or reorders an entry, and \<open>stop\<close> leaves both
  lists as they are, so the subscription that \<open>start\<close> made stays.
\<close>

theorem handler_lists_append_only:
  "prefix (pushStateHandlers w) (pushStateHandlers (perform_all ops w)) \<and>
   prefix (popstateListeners w) (popstateListeners (perform_all ops w)) \<and>
   pushStateHandlers (onPushState h w) = pushStateHandlers w @ [h] \<and>
   pushStateHandlers (onChange h w) = pushStateHandlers w @ [h] \<and>
   pushStateHandlers (final (stop self w)) = pushStateHandlers w \<and>
   popstateListeners (final (stop self w)) = popstateListeners w"
  using perform_all_handlers [of w ops]
  by (simp add: onChange_def onPushState_def onPopState_def stop_effect)

subsection \<open>davis.app.js: configure\<close>

text \<open>
  Claim C10. \<open>configure\<close> on the instance \<open>a\<close> applies the function to the settings object
  of the prototype, so every instance \<open>b\<close> reads the changed settings, the instances and
  their \<open>running\<close> fields stay as they were, and a logging closure of another instance
  writes to a logger that was configured through \<open>a\<close>.
\<close>

theorem configure_shared_settings:
  "get_settings (configure a config w) b = config (get_settings w a) \<and>
   get_settings (configure a config w) b = get_settings (configure a config w) a \<and>
   apps (configure a config w) = apps w \<and>
   instance_at (configure a config w) b = instance_at w b \<and>
   call_subscriber (Some (LogStart b)) [] (configure a new_logger w) =
     Normal (emit (Logged Info 9 ''application started'' None) (configure a new_logger w))"
  by (simp add: configure_def get_settings_def instance_at_def new_logger_def)

subsection \<open>davis.app.js: start called again\<close>

lemma quiet_started:
  assumes "quiet ''start'' [] w"
  shows "quiet ''start'' [] (started self w es)"
  using assms by (simp add: quiet_def started_def bound_def default_subscriptions_def)

lemma starts_effect:
  assumes "quiet ''start'' [] w"
  shows "\<exists>w'. starts n self w = Normal w' \<and>
           callbacks w' = callbacks w @ concat (replicate n (default_subscriptions self)) \<and>
           pushStateHandlers w' = pushStateHandlers w @ replicate n (Dispatch self) \<and>
           popstateListeners w' = popstateListeners w @ replicate n (Wrapped (Dispatch self)) \<and>
           routes w' = routes w \<and> pageLoad w' = pageLoad w \<and> settings w' = settings w"
  using assms
proof (induction n arbitrary: w)
  case 0
  show ?case by simp
next
  case (Suc n)
  obtain es where es: "start self w = Normal (started self w es)"
    using start_returns [OF Suc.prems] by blast
  let ?w1 = "started self w es"
  obtain w' where w': "starts n self ?w1 = Normal w'"
    "callbacks w' = callbacks ?w1 @ concat (replicate n (default_subscriptions self))"
    "pushStateHandlers w' = pushStateHandlers ?w1 @ replicate n (Dispatch self)"
    "popstateListeners w' = popstateListeners ?w1 @ replicate n (Wrapped (Dispatch self))"
    "routes w' = routes ?w1" "pageLoad w' = pageLoad ?w1" "settings w' = settings ?w1"
    using Suc.IH [OF quiet_started [OF Suc.prems]] by blast
  from es w' show ?case by (simp add: started_def)
qed

lemma callable_default:
  assumes "\<not> nullish v" and "c \<in> set (bound name (concat (replicate n (default_subscriptions self))))"
  shows "callable c [v]"
proof -
  from assms(2) have "c \<in> snd ` set (default_subscriptions self)"
    by (auto simp: bound_def)
  with assms(1) show ?thesis by (auto simp: default_subscriptions_def)
qed

lemma quiet_append_defaults:
  assumes "\<not> nullish v" and "quiet name [v] w"
    and "callbacks w' = callbacks w @ concat (replicate n (default_subscriptions self))"
  shows "quiet name [v] w'"
proof -
  have "bound name (callbacks w') =
          bound name (callbacks w) @
          bound name (concat (replicate n (default_subscriptions self)))"
    using assms(3) by (simp add: bound_def)
  moreover have "list_all (\<lambda>c. callable c [v])
                   (bound name (concat (replicate n (default_subscriptions self))))"
    using callable_default [OF assms(1)] by (simp add: list_all_iff)
  ultimately show ?thesis using assms(2) by (simp add: quiet_def)
qed

lemma dispatch_ok_append_defaults:
  assumes "dispatch_ok v w"
    and "callbacks w' = callbacks w @ concat (replicate n (default_subscriptions self))"
    and "routes w' = routes w"
  shows "dispatch_ok v w'"
proof -
  from assms(1) have nn: "\<not> nullish v" by (simp add: dispatch_ok_def)
  note q = quiet_append_defaults [OF nn _ assms(2)]
  from assms(1) show ?thesis
    unfolding dispatch_ok_def assms(3) by (auto intro: q split: option.splits)
qed

lemma signals_replicate:
  "concat (map (\<lambda>h. handler_signals h v rs) (replicate n (Dispatch self))) =
   concat (replicate n (expected_signals self v rs))"
  by (induction n) simp_all

text \<open>
  Claim C9. \<open>start\<close> is not idempotent. In a process with no handler registered yet,
  \<open>n\<close> calls of \<open>start\<close> on one instance leave \<open>n\<close> copies of the three default
  subscriptions in the registry and \<open>n\<close> copies of the dispatch closure in each handler
  list; every later \<open>pushState\<close>, \<open>replaceState\<close> or native popstate event then runs the
  dispatch of one request (notification, lookup, and route callback or \<open>routeNotFound\<close>)
  \<open>n\<close> times over. The hypotheses are that no subscriber already bound raises.
\<close>

theorem start_not_idempotent:
  assumes "quiet ''start'' [] w"
    and "pushStateHandlers w = []" and "popstateListeners w = []"
    and "dispatch_ok (JReq r) w" and "dispatch_ok (delivered event w) w"
  shows "\<exists>w'. starts n self w = Normal w' \<and>
           callbacks w' = callbacks w @ concat (replicate n (default_subscriptions self)) \<and>
           pushStateHandlers w' = replicate n (Dispatch self) \<and>
           popstateListeners w' = replicate n (Wrapped (Dispatch self)) \<and>
           (\<exists>w'' es. pushState r w' = Normal w'' \<and> trace w'' = trace w' @ es \<and>
              filter signal es = concat (replicate n (expected_signals self (JReq r) (routes w)))) \<and>
           (\<exists>w'' es. replaceState r w' = Normal w'' \<and> trace w'' = trace w' @ es \<and>
              filter signal es = concat (replicate n (expected_signals self (JReq r) (routes w)))) \<and>
           (\<exists>es. trace (popstate event w') = trace w' @ es \<and>
              filter signal es =
                concat (replicate n (expected_signals self (delivered event w) (routes w))))"
proof -
  obtain w' where w': "starts n self w = Normal w'"
    "callbacks w' = callbacks w @ concat (replicate n (default_subscriptions self))"
    "pushStateHandlers w' = pushStateHandlers w @ replicate n (Dispatch self)"
    "popstateListeners w' = popstateListeners w @ replicate n (Wrapped (Dispatch self))"
    "routes w' = routes w" "pageLoad w' = pageLoad w"
    using starts_effect [OF assms(1)] by blast
  have hs: "pushStateHandlers w' = replicate n (Dispatch self)"
    and ls: "popstateListeners w' = replicate n (Wrapped (Dispatch self))"
    using w'(3,4) assms(2,3) by simp_all
  have d: "delivered event w' = delivered event w" using w'(6) by (simp add: delivered_def)
  have ok: "dispatch_ok (JReq r) w'"
    using assms(4) w'(2,5) by (rule dispatch_ok_append_defaults)
  have okd: "dispatch_ok (delivered event w) w'"
    using assms(5) w'(2,5) by (rule dispatch_ok_append_defaults)
  have all_ok: "list_all (\<lambda>h. handler_ok h (JReq r) w') (pushStateHandlers w')"
    unfolding hs using ok by (simp add: list_all_iff)
  have push: "\<exists>w'' es. forEach (pushStateHandlers w') (JReq r) (emit host w') = Normal w'' \<and>
           trace w'' = trace w' @ es \<and>
           filter signal es = concat (replicate n (expected_signals self (JReq r) (routes w)))"
    if "\<not> signal host" for host
  proof -
    obtain w'' es where e: "forEach (pushStateHandlers w') (JReq r) (emit host w') = Normal w''"
      "grows w' (host # es) w''"
      "filter signal es =
         concat (map (\<lambda>h. handler_signals h (JReq r) (routes w')) (pushStateHandlers w'))"
      using forEach_after_host [OF all_ok, of host] by blast
    from e(2) have "trace w'' = trace w' @ host # es" by (simp add: grows_def)
    moreover have "filter signal (host # es) =
        concat (replicate n (expected_signals self (JReq r) (routes w)))"
      using that e(3) unfolding hs w'(5) by (simp add: signals_replicate)
    ultimately show ?thesis using e(1) by blast
  qed
  have hh: "pushStateHandlers (emit host w') = pushStateHandlers w'" for host
    by (simp add: emit_def)
  have p1: "\<exists>w'' es. pushState r w' = Normal w'' \<and> trace w'' = trace w' @ es \<and>
              filter signal es = concat (replicate n (expected_signals self (JReq r) (routes w)))"
    using push [of "HostPushState r (title r) (path r)"]
    by (simp add: pushState_def Let_def hh)
  have p2: "\<exists>w'' es. replaceState r w' = Normal w'' \<and> trace w'' = trace w' @ es \<and>
              filter signal es = concat (replicate n (expected_signals self (JReq r) (routes w)))"
    using push [of "HostReplaceState r (title r) (path r)"]
    by (simp add: replaceState_def Let_def hh)
  obtain es where f: "grows w' es (fire (popstateListeners w') event w')"
    "list_all (\<lambda>l. handler_ok (wraps l) (delivered event w') w') (popstateListeners w') \<longrightarrow>
       filter signal es =
         concat (map (\<lambda>l. handler_signals (wraps l) (delivered event w') (routes w'))
                   (popstateListeners w'))"
    using fire_grows [of w' "popstateListeners w'" event] by blast
  have "list_all (\<lambda>l. handler_ok (wraps l) (delivered event w') w') (popstateListeners w')"
    unfolding ls d using okd by (simp add: list_all_iff)
  with f(2) have "filter signal es =
      concat (replicate n (expected_signals self (delivered event w) (routes w)))"
    unfolding ls d w'(5) by (simp add: signals_replicate)
  moreover from f(1) have "trace (popstate event w') = trace w' @ es"
    by (simp add: popstate_def grows_def)
  ultimately have p3: "\<exists>es. trace (popstate event w') = trace w' @ es \<and>
              filter signal es =
                concat (replicate n (expected_signals self (delivered event w) (routes w)))"
    by blast
  from w'(1,2) hs ls p1 p2 p3 show ?thesis by blast
qed

theorem start_not_idempotent_witness:
  "quiet ''start'' [] constructed \<and>
   pushStateHandlers constructed = [] \<and> popstateListeners constructed = [] \<and>
   dispatch_ok (JReq save_request) constructed \<and>
   dispatch_ok (delivered zero_event constructed) constructed \<and>
   (\<exists>w'. starts (Suc (Suc 0)) 0 constructed = Normal w' \<and>
      callbacks w' = default_subscriptions 0 @ default_subscriptions 0 \<and>
      pushStateHandlers w' = [Dispatch 0, Dispatch 0] \<and>
      popstateListeners w' = [Wrapped (Dispatch 0), Wrapped (Dispatch 0)] \<and>
      (\<exists>w'' es. pushState save_request w' = Normal w'' \<and> trace w'' = trace w' @ es \<and>
         filter signal es =
           [Emitted 0 ''lookupRoute'' [JReq save_request],
            LookupCalled (Some ''post'') (Some ''/save''),
            Emitted 0 ''runRoute'' [JReq save_request],
            RouteRun 2 (JReq save_request),
            Emitted 0 ''lookupRoute'' [JReq save_request],
            LookupCalled (Some ''post'') (Some ''/save''),
            Emitted 0 ''runRoute'' [JReq save_request],
            RouteRun 2 (JReq save_request)]))"
proof -
  have q: "quiet ''start'' [] constructed"
    by (simp add: quiet_def bound_def constructed_fields)
  have ok1: "dispatch_ok (JReq save_request) constructed"
    by (simp add: dispatch_ok_def quiet_def bound_def constructed_fields split: option.splits)
  have ok2: "dispatch_ok (delivered zero_event constructed) constructed"
    by (simp add: dispatch_ok_def quiet_def bound_def constructed_fields delivered_def
          zero_event_def split: option.splits)
  note t = start_not_idempotent [OF q constructed_fields(1,2) ok1 ok2, of "Suc (Suc 0)" 0,
             unfolded save_request_signals constructed_fields(3)]
  from t obtain w' where w': "starts (Suc (Suc 0)) 0 constructed = Normal w'"
    "callbacks w' = [] @ concat (replicate (Suc (Suc 0)) (default_subscriptions 0))"
    "pushStateHandlers w' = replicate (Suc (Suc 0)) (Dispatch 0)"
    "popstateListeners w' = replicate (Suc (Suc 0)) (Wrapped (Dispatch 0))"
    "\<exists>w'' es. pushState save_request w' = Normal w'' \<and> trace w'' = trace w' @ es \<and>
       filter signal es =
         concat (replicate (Suc (Suc 0))
           [Emitted 0 ''lookupRoute'' [JReq save_request],
            LookupCalled (Some ''post'') (Some ''/save''),
            Emitted 0 ''runRoute'' [JReq save_request],
            RouteRun 2 (JReq save_request)])"
    by blast
  from w' have "callbacks w' = default_subscriptions 0 @ default_subscriptions 0 \<and>
      pushStateHandlers w' = [Dispatch 0, Dispatch 0] \<and>
      popstateListeners w' = [Wrapped (Dispatch 0), Wrapped (Dispatch 0)] \<and>
      (\<exists>w'' es. pushState save_request w' = Normal w'' \<and> trace w'' = trace w' @ es \<and>
         filter signal es =
           [Emitted 0 ''lookupRoute'' [JReq save_request],
            LookupCalled (Some ''post'') (Some ''/save''),
            Emitted 0 ''runRoute'' [JReq save_request],
            RouteRun 2 (JReq save_request),
            Emitted 0 ''lookupRoute'' [JReq save_request],
            LookupCalled (Some ''post'') (Some ''/save''),
            Emitted 0 ''runRoute'' [JReq save_request],
            RouteRun 2 (JReq save_request)])"
    by simp
  with w'(1) q ok1 ok2 constructed_fields(1,2) show ?thesis by blast
qed

text \<open>
  The whole log of two calls of \<open>start\<close> and a \<open>pushState\<close> of a request that no route
  matches: two dispatches, each logged by both copies of the \<open>routeNotFound\<close> subscription.
\<close>

lemma two_starts_example:
  "trace (final (andThen (starts (Suc (Suc 0)) 0 constructed) (pushState lost_request))) =
     [ListenCalled 0, Emitted 0 ''start'' [], Logged Info 0 ''application started'' None,
      ListenCalled 0, Emitted 0 ''start'' [], Logged Info 0 ''application started'' None,
      Logged Info 0 ''application started'' None,
      HostPushState lost_request ''Lost'' ''/nowhere'',
      Called (Dispatch 0) (JReq lost_request),
      Emitted 0 ''lookupRoute'' [JReq lost_request],
      LookupCalled (Some ''get'') (Some ''/nowhere''),
      Emitted 0 ''routeNotFound'' [JReq lost_request],
      Logged Warn 0 ''routeNotFound: '' (Some (JReq lost_request)),
      Logged Warn 0 ''routeNotFound: '' (Some (JReq lost_request)),
      Called (Dispatch 0) (JReq lost_request),
      Emitted 0 ''lookupRoute'' [JReq lost_request],
      LookupCalled (Some ''get'') (Some ''/nowhere''),
      Emitted 0 ''routeNotFound'' [JReq lost_request],
      Logged Warn 0 ''routeNotFound: '' (Some (JReq lost_request)),
      Logged Warn 0 ''routeNotFound: '' (Some (JReq lost_request))]"
  by (simp add: constructed_def klass_def fresh_def start_def bind_def listen_def trigger_def
        bound_def emit_def onChange_def onPushState_def onPopState_def set_running_def
        get_settings_def defaults_def pushState_def dispatch_def run_def lost_request_def
        home_route_def save_route_def save_again_route_def exact_def)

end
